theory Spec2Isabelle
  imports Complex_Main "HOL-Library.Log_Nat"
begin

section \<open>Rate limiters of the design-patterns repository\<close>

text \<open>
  The repository holds two rate limiters, each a class with private mutable fields and one
  method \<^verbatim>\<open>isAllowed\<close>. Both read the wall clock through \<^verbatim>\<open>Date.now()\<close>; here the
  reading is an explicit argument \<open>now\<close>, an integer number of milliseconds. A method that
  mutates \<^verbatim>\<open>this\<close> becomes a function from the object to the returned boolean and the
  updated object.

  A TypeScript \<^verbatim>\<open>number\<close> is a double. Every finite double is a rational, so a
  \<^verbatim>\<open>number\<close> that is not a clock reading is modelled as a \<open>rat\<close>. The fixed-window
  limiter only compares its numbers, which is exact. The token bucket computes with them,
  and there every arithmetic result is rounded to the nearest double by \<open>binary64\<close>
  below. \<^verbatim>\<open>NaN\<close>, the infinities (so also results beyond the largest double) and the
  sign of zero are not modelled.
\<close>

subsection \<open>FixedWindowRateLimiter\<close>

record RateLimiterOptions =
  maxRequests :: rat
  timeWindowMs :: rat

text \<open>
  The class copies both options into fields of the same names and adds the map from
  identifier to the timestamps of its admitted requests.
\<close>

record FixedWindowRateLimiter = RateLimiterOptions +
  requestTimestamps :: "string \<rightharpoonup> int list"

definition FixedWindowRateLimiter_constructor ::
  "RateLimiterOptions \<Rightarrow> FixedWindowRateLimiter" where
  "FixedWindowRateLimiter_constructor options =
     \<lparr>maxRequests = maxRequests options,
      timeWindowMs = timeWindowMs options,
      requestTimestamps = Map.empty\<rparr>"

text \<open>
  The two local constants of \<^verbatim>\<open>isAllowed\<close>, named as in the source.
  \<^verbatim>\<open>this.requestTimestamps.get(identifier) || []\<close>: a missing key gives \<^verbatim>\<open>undefined\<close>,
  which is falsy; an array, even an empty one, is truthy.
\<close>

definition timestamps :: "FixedWindowRateLimiter \<Rightarrow> string \<Rightarrow> int list" where
  "timestamps this identifier =
     (case requestTimestamps this identifier of None \<Rightarrow> [] | Some ts \<Rightarrow> ts)"

definition recentTimestamps :: "FixedWindowRateLimiter \<Rightarrow> int \<Rightarrow> string \<Rightarrow> int list" where
  "recentTimestamps this now identifier =
     filter (\<lambda>ts. of_int (now - ts) < timeWindowMs this) (timestamps this identifier)"

text \<open>
  \<^verbatim>\<open>filter\<close> builds a new array, so the stored one is never mutated; \<^verbatim>\<open>push\<close> and
  \<^verbatim>\<open>set\<close> happen only past the early \<^verbatim>\<open>return false\<close>.
\<close>

definition FixedWindowRateLimiter_isAllowed ::
  "FixedWindowRateLimiter \<Rightarrow> int \<Rightarrow> string \<Rightarrow> bool \<times> FixedWindowRateLimiter" where
  "FixedWindowRateLimiter_isAllowed this now identifier =
     (let recent = recentTimestamps this now identifier
      in if maxRequests this \<le> of_nat (length recent)
         then (False, this)
         else (True, this\<lparr>requestTimestamps :=
                 (requestTimestamps this)(identifier \<mapsto> recent @ [now])\<rparr>))"

text \<open>
  A sequence of calls on one limiter, as the script makes through \<^verbatim>\<open>handleRequest\<close>, each
  with the clock reading at which it is made: the returned booleans in order, and the
  limiter after the last call.
\<close>

fun FixedWindowRateLimiter_calls ::
  "FixedWindowRateLimiter \<Rightarrow> (int \<times> string) list \<Rightarrow> bool list \<times> FixedWindowRateLimiter" where
  "FixedWindowRateLimiter_calls this [] = ([], this)"
| "FixedWindowRateLimiter_calls this ((now, identifier) # rest) =
     (case FixedWindowRateLimiter_isAllowed this now identifier of
        (r, this') \<Rightarrow> (case FixedWindowRateLimiter_calls this' rest of (rs, this'') \<Rightarrow> (r # rs, this'')))"

subsection \<open>Double-precision arithmetic\<close>

text \<open>
  IEEE 754 binary64, rounding to nearest with ties to even, on rationals. For \<open>x \<noteq> 0\<close>,
  \<open>exponent x\<close> is the integer \<open>e\<close> with \<open>2 ^ e \<le> \<bar>x\<bar> < 2 ^ (e + 1)\<close>, found from the bit
  lengths of numerator and denominator. A double with exponent \<open>e\<close> is a multiple of
  \<open>2 ^ (e - 52)\<close> (53 significant bits); below \<open>2 ^ (- 1022)\<close> the spacing stays that of
  exponent \<open>- 1022\<close> (subnormal numbers).
\<close>

definition exponent :: "rat \<Rightarrow> int" where
  "exponent x =
     (case quotient_of \<bar>x\<bar> of (p, q) \<Rightarrow>
        (let e0 = bitlen p - bitlen q in if 2 powi e0 \<le> \<bar>x\<bar> then e0 else e0 - 1))"

definition roundTiesToEven :: "rat \<Rightarrow> int" where
  "roundTiesToEven q =
     (let f = \<lfloor>q\<rfloor>; d = q - of_int f
      in if d < 1 / 2 then f else if 1 / 2 < d then f + 1 else if even f then f else f + 1)"

definition ulp :: "rat \<Rightarrow> rat" where
  "ulp x = 2 powi (max (exponent x) (- 1022) - 52)"

definition binary64 :: "rat \<Rightarrow> rat" where
  "binary64 x = (if x = 0 then 0 else of_int (roundTiesToEven (x / ulp x)) * ulp x)"

text \<open>The rationals that are doubles: those that rounding leaves alone.\<close>

definition is_double :: "rat \<Rightarrow> bool" where
  "is_double x = (binary64 x = x)"

subsection \<open>TokenBucketRateLimiter\<close>

record TokenBucketRateLimiter =
  capacity :: rat
  rate :: rat
  lastCheckedAt :: int
  tokens :: rat

definition TokenBucketRateLimiter_constructor ::
  "rat \<Rightarrow> rat \<Rightarrow> int \<Rightarrow> TokenBucketRateLimiter" where
  "TokenBucketRateLimiter_constructor capacity0 rate0 now =
     \<lparr>capacity = capacity0, rate = rate0, lastCheckedAt = now, tokens = capacity0\<rparr>"

text \<open>
  The first half of \<^verbatim>\<open>isAllowed\<close>, up to the comparison: \<open>timePassed\<close> is computed from
  the old \<open>lastCheckedAt\<close>, which is then overwritten, and the tokens are refilled and
  clamped with \<^verbatim>\<open>Math.min\<close>. The subtraction, the division, the product and the sum are
  each rounded; \<^verbatim>\<open>Math.min\<close> returns one of its arguments and rounds nothing.
\<close>

definition refill :: "TokenBucketRateLimiter \<Rightarrow> int \<Rightarrow> TokenBucketRateLimiter" where
  "refill this now =
     (let timePassed = binary64 (binary64 (of_int (now - lastCheckedAt this)) / 1000)
      in this\<lparr>lastCheckedAt := now,
              tokens := min (capacity this)
                            (binary64 (tokens this + binary64 (timePassed * rate this)))\<rparr>)"

text \<open>The comparison \<^verbatim>\<open>>=\<close> is exact; the subtraction of \<^verbatim>\<open>-=\<close> is rounded.\<close>

definition TokenBucketRateLimiter_isAllowed ::
  "TokenBucketRateLimiter \<Rightarrow> int \<Rightarrow> rat \<Rightarrow> bool \<times> TokenBucketRateLimiter" where
  "TokenBucketRateLimiter_isAllowed this now tokensRequested =
     (let this1 = refill this now
      in if tokensRequested \<le> tokens this1
         then (True, this1\<lparr>tokens := binary64 (tokens this1 - tokensRequested)\<rparr>)
         else (False, this1))"


fun TokenBucketRateLimiter_calls ::
  "TokenBucketRateLimiter \<Rightarrow> (int \<times> rat) list \<Rightarrow> bool list \<times> TokenBucketRateLimiter" where
  "TokenBucketRateLimiter_calls this [] = ([], this)"
| "TokenBucketRateLimiter_calls this ((now, tokensRequested) # rest) =
     (case TokenBucketRateLimiter_isAllowed this now tokensRequested of
        (r, this') \<Rightarrow> (case TokenBucketRateLimiter_calls this' rest of (rs, this'') \<Rightarrow> (r # rs, this'')))"

section \<open>Facts about the fixed-window limiter\<close>

lemma isAllowed_fst:
  "fst (FixedWindowRateLimiter_isAllowed this now k)
     = (of_nat (length (recentTimestamps this now k)) < maxRequests this)"
  by (auto simp add: FixedWindowRateLimiter_isAllowed_def Let_def)

lemma isAllowed_denied:
  "maxRequests this \<le> of_nat (length (recentTimestamps this now k))
     \<Longrightarrow> FixedWindowRateLimiter_isAllowed this now k = (False, this)"
  by (simp add: FixedWindowRateLimiter_isAllowed_def Let_def)

lemma isAllowed_admitted:
  "of_nat (length (recentTimestamps this now k)) < maxRequests this
     \<Longrightarrow> FixedWindowRateLimiter_isAllowed this now k =
           (True, this\<lparr>requestTimestamps :=
              (requestTimestamps this)(k \<mapsto> recentTimestamps this now k @ [now])\<rparr>)"
  by (simp add: FixedWindowRateLimiter_isAllowed_def Let_def)

text \<open>With a positive window, a timestamp taken at this very instant is recent.\<close>

lemma recent_same_instant:
  assumes "0 < timeWindowMs this" "timestamps this k = replicate j now"
  shows "recentTimestamps this now k = replicate j now"
  using assms by (simp add: recentTimestamps_def)

lemma calls_append:
  "FixedWindowRateLimiter_calls this (xs @ ys) =
     (case FixedWindowRateLimiter_calls this xs of (rs, this') \<Rightarrow>
        (case FixedWindowRateLimiter_calls this' ys of (rs', this'') \<Rightarrow> (rs @ rs', this'')))"
  by (induction xs arbitrary: this) (auto split: prod.splits)

text \<open>
  With \<open>j\<close> requests already recorded at this instant and room for \<open>m\<close> more, the next
  \<open>m\<close> calls at the same instant are all admitted and recorded, and the configuration
  stays as it was.
\<close>

lemma calls_same_instant:
  assumes "0 < timeWindowMs this" "timestamps this k = replicate j now"
    "maxRequests this = of_nat (j + m)"
  shows "\<exists>this'. FixedWindowRateLimiter_calls this (replicate m (now, k)) = (replicate m True, this')
           \<and> timestamps this' k = replicate (j + m) now
           \<and> maxRequests this' = maxRequests this
           \<and> timeWindowMs this' = timeWindowMs this"
  using assms
proof (induction m arbitrary: this j)
  case 0
  then show ?case by simp
next
  case (Suc m)
  let ?next = "this\<lparr>requestTimestamps :=
                 (requestTimestamps this)(k \<mapsto> replicate j now @ [now])\<rparr>"
  have recent: "recentTimestamps this now k = replicate j now"
    using Suc.prems(1,2) by (rule recent_same_instant)
  have "of_nat (length (recentTimestamps this now k)) < maxRequests this"
    using Suc.prems(3) by (simp add: recent)
  then have step: "FixedWindowRateLimiter_isAllowed this now k = (True, ?next)"
    by (simp add: isAllowed_admitted recent)
  have "timestamps ?next k = replicate (Suc j) now"
    by (simp add: timestamps_def replicate_append_same)
  moreover have "0 < timeWindowMs ?next" using Suc.prems(1) by simp
  moreover have "maxRequests ?next = of_nat (Suc j + m)" using Suc.prems(3) by simp
  ultimately obtain this' where
    "FixedWindowRateLimiter_calls ?next (replicate m (now, k)) = (replicate m True, this')"
    "timestamps this' k = replicate (Suc j + m) now"
    "maxRequests this' = maxRequests ?next" "timeWindowMs this' = timeWindowMs ?next"
    using Suc.IH[of ?next "Suc j"] by blast
  then show ?case using step by simp
qed

text \<open>
  Claim C1 (capacity bound). Let the limiter have \<open>maxRequests = n\<close> and a positive
  \<open>timeWindowMs\<close>, and let \<open>identifier\<close> have no recorded timestamps. Of \<open>n + 1\<close> calls of
  \<open>isAllowed identifier\<close> made at one and the same instant \<open>now\<close>, the first \<open>n\<close> return
  true and the last returns false. (The statement also covers \<open>n = 0\<close>, where the only
  call is refused.)
\<close>

theorem fixed_window_capacity_bound:
  assumes "maxRequests this = of_nat n" "0 < timeWindowMs this"
    and "timestamps this identifier = []"
  shows "fst (FixedWindowRateLimiter_calls this (replicate (Suc n) (now, identifier)))
           = replicate n True @ [False]"
proof -
  obtain this' where
    run: "FixedWindowRateLimiter_calls this (replicate n (now, identifier)) = (replicate n True, this')"
    and ts: "timestamps this' identifier = replicate n now"
    and cfg: "maxRequests this' = maxRequests this" "timeWindowMs this' = timeWindowMs this"
    using calls_same_instant[of "this" "identifier" 0 now n] assms by auto
  have "recentTimestamps this' now identifier = replicate n now"
    using assms(2) cfg(2) ts by (intro recent_same_instant) simp_all
  then have "FixedWindowRateLimiter_isAllowed this' now identifier = (False, this')"
    using assms(1) cfg(1) by (intro isAllowed_denied) simp
  moreover have "replicate (Suc n) (now, identifier)
                   = replicate n (now, identifier) @ [(now, identifier)]"
    by (simp add: replicate_append_same)
  ultimately show ?thesis using run by (simp only: calls_append) simp
qed

theorem fixed_window_capacity_bound_witness:
  "fst (FixedWindowRateLimiter_calls
          (FixedWindowRateLimiter_constructor \<lparr>maxRequests = 5, timeWindowMs = 60000\<rparr>)
          (replicate 6 (0, ''user123'')))
     = [True, True, True, True, True, False]"
proof -
  let ?l = "FixedWindowRateLimiter_constructor \<lparr>maxRequests = 5, timeWindowMs = 60000\<rparr>"
  have "maxRequests ?l = of_nat 5" "0 < timeWindowMs ?l" "timestamps ?l ''user123'' = []"
    by (simp_all add: FixedWindowRateLimiter_constructor_def timestamps_def)
  from fixed_window_capacity_bound[OF this, of 0] show ?thesis
    by (simp add: eval_nat_numeral)
qed

text \<open>
  Claim C3 (strict window, expiry). A stored timestamp \<open>ts\<close> is among the recent ones
  exactly when \<open>now - ts < timeWindowMs\<close>; one that is exactly \<open>timeWindowMs\<close> old is
  not. The call is admitted exactly when the recent ones are fewer than \<open>maxRequests\<close>.
  With \<open>maxRequests = 5\<close> and \<open>timeWindowMs = 60000\<close>, after five admitted calls at
  \<open>t = 0\<close> the call at \<open>t = 60001\<close> returns true; so does one at \<open>t = 60000\<close>, while one
  at \<open>t = 59999\<close> returns false.
\<close>

theorem fixed_window_strict_expiry:
  "(ts \<in> set (recentTimestamps this now identifier) \<longleftrightarrow>
      ts \<in> set (timestamps this identifier) \<and> of_int (now - ts) < timeWindowMs this)
   \<and> (of_int (now - ts) = timeWindowMs this \<longrightarrow>
        ts \<notin> set (recentTimestamps this now identifier))
   \<and> fst (FixedWindowRateLimiter_isAllowed this now identifier)
        = (of_nat (length (recentTimestamps this now identifier)) < maxRequests this)
   \<and> fst (FixedWindowRateLimiter_calls
             (FixedWindowRateLimiter_constructor \<lparr>maxRequests = 5, timeWindowMs = 60000\<rparr>)
             (replicate 5 (0, identifier) @ [(60001, identifier)]))
        = [True, True, True, True, True, True]
   \<and> fst (FixedWindowRateLimiter_calls
             (FixedWindowRateLimiter_constructor \<lparr>maxRequests = 5, timeWindowMs = 60000\<rparr>)
             (replicate 5 (0, identifier) @ [(60000, identifier)]))
        = [True, True, True, True, True, True]
   \<and> fst (FixedWindowRateLimiter_calls
             (FixedWindowRateLimiter_constructor \<lparr>maxRequests = 5, timeWindowMs = 60000\<rparr>)
             (replicate 5 (0, identifier) @ [(59999, identifier)]))
        = [True, True, True, True, True, False]"
  by (simp add: recentTimestamps_def isAllowed_fst eval_nat_numeral FixedWindowRateLimiter_isAllowed_def
      FixedWindowRateLimiter_constructor_def timestamps_def Let_def)

theorem fixed_window_strict_expiry_witness:
  "of_int (60000 - 0) =
     timeWindowMs \<lparr>maxRequests = 5, timeWindowMs = 60000,
                   requestTimestamps = [''u'' \<mapsto> [0, 0, 0, 0, 0]]\<rparr>
   \<and> 0 \<notin> set (recentTimestamps
                 \<lparr>maxRequests = 5, timeWindowMs = 60000,
                  requestTimestamps = [''u'' \<mapsto> [0, 0, 0, 0, 0]]\<rparr> 60000 ''u'')
   \<and> fst (FixedWindowRateLimiter_isAllowed
             \<lparr>maxRequests = 5, timeWindowMs = 60000,
              requestTimestamps = [''u'' \<mapsto> [0, 0, 0, 0, 0]]\<rparr> 60000 ''u'')"
  using fixed_window_strict_expiry
    [of 0 "\<lparr>maxRequests = 5, timeWindowMs = 60000,
            requestTimestamps = [''u'' \<mapsto> [0, 0, 0, 0, 0]]\<rparr>" 60000 "''u''"]
  by (simp add: recentTimestamps_def timestamps_def)

text \<open>
  Claim C5 (a refusal is not recorded). When \<open>isAllowed identifier\<close> returns false, the
  history recorded for \<open>identifier\<close> is what it was before the call, with no timestamp
  appended; hence every later call, for any identifier at any time, is answered as if the
  refused call had not been made.
\<close>

theorem fixed_window_denied_not_recorded:
  assumes "\<not> fst (FixedWindowRateLimiter_isAllowed this now identifier)"
  shows "requestTimestamps (snd (FixedWindowRateLimiter_isAllowed this now identifier)) identifier
           = requestTimestamps this identifier
         \<and> timestamps (snd (FixedWindowRateLimiter_isAllowed this now identifier)) identifier
           = timestamps this identifier
         \<and> FixedWindowRateLimiter_isAllowed (snd (FixedWindowRateLimiter_isAllowed this now identifier)) now' identifier'
           = FixedWindowRateLimiter_isAllowed this now' identifier'"
  using assms by (simp add: FixedWindowRateLimiter_isAllowed_def Let_def split: if_splits)

theorem fixed_window_denied_not_recorded_witness:
  "\<not> fst (FixedWindowRateLimiter_isAllowed
             \<lparr>maxRequests = 1, timeWindowMs = 1000, requestTimestamps = [''u'' \<mapsto> [0]]\<rparr>
             10 ''u'')
   \<and> requestTimestamps
        (snd (FixedWindowRateLimiter_isAllowed
                \<lparr>maxRequests = 1, timeWindowMs = 1000, requestTimestamps = [''u'' \<mapsto> [0]]\<rparr>
                10 ''u'')) ''u''
      = Some [0]"
proof -
  let ?l = "\<lparr>maxRequests = 1, timeWindowMs = 1000, requestTimestamps = [''u'' \<mapsto> [0]]\<rparr>"
  have h: "\<not> fst (FixedWindowRateLimiter_isAllowed ?l 10 ''u'')"
    by (simp add: isAllowed_fst recentTimestamps_def timestamps_def)
  from fixed_window_denied_not_recorded[OF h] h show ?thesis by simp
qed

text \<open>
  Claim C7 (independence). A call \<open>isAllowed A\<close> leaves the history recorded for every
  identifier \<open>B\<close> other than \<open>A\<close> as it was, so a later call for \<open>B\<close> gets the answer it
  would have got without the call for \<open>A\<close>.
\<close>

theorem fixed_window_independence:
  assumes "A \<noteq> B"
  shows "requestTimestamps (snd (FixedWindowRateLimiter_isAllowed this now A)) B = requestTimestamps this B
         \<and> timestamps (snd (FixedWindowRateLimiter_isAllowed this now A)) B = timestamps this B
         \<and> fst (FixedWindowRateLimiter_isAllowed (snd (FixedWindowRateLimiter_isAllowed this now A)) now' B)
           = fst (FixedWindowRateLimiter_isAllowed this now' B)"
  using assms
  by (simp add: FixedWindowRateLimiter_isAllowed_def Let_def recentTimestamps_def timestamps_def)

theorem fixed_window_independence_witness:
  "''a'' \<noteq> ''b''
   \<and> fst (FixedWindowRateLimiter_isAllowed
             \<lparr>maxRequests = 1, timeWindowMs = 1000, requestTimestamps = [''b'' \<mapsto> [5]]\<rparr>
             10 ''a'')
   \<and> requestTimestamps
        (snd (FixedWindowRateLimiter_isAllowed
                \<lparr>maxRequests = 1, timeWindowMs = 1000, requestTimestamps = [''b'' \<mapsto> [5]]\<rparr>
                10 ''a'')) ''b''
      = Some [5]"
proof -
  let ?l = "\<lparr>maxRequests = 1, timeWindowMs = 1000, requestTimestamps = [''b'' \<mapsto> [5]]\<rparr>"
  have h: "''a'' \<noteq> ''b''" by simp
  have "fst (FixedWindowRateLimiter_isAllowed ?l 10 ''a'')"
    by (simp add: isAllowed_fst recentTimestamps_def timestamps_def)
  with fixed_window_independence[OF h, of ?l 10] h show ?thesis by simp
qed

text \<open>
  Claim C9 (a refusal writes nothing). When \<open>isAllowed\<close> returns false the limiter is
  exactly the one before the call: the filtered list is dropped, so entries that have left
  the window stay in the map. The instance below has a history \<open>[0, 100, 100]\<close> of which
  only \<open>[100, 100]\<close> is recent at \<open>now = 120\<close>; after the refusal the stale \<open>0\<close> is
  still stored.
\<close>

theorem fixed_window_denied_state_unchanged:
  assumes "\<not> fst (FixedWindowRateLimiter_isAllowed this now identifier)"
  shows "snd (FixedWindowRateLimiter_isAllowed this now identifier) = this"
  using assms by (simp add: FixedWindowRateLimiter_isAllowed_def Let_def split: if_splits)

theorem fixed_window_denied_state_unchanged_witness:
  "\<not> fst (FixedWindowRateLimiter_isAllowed
             \<lparr>maxRequests = 2, timeWindowMs = 50,
              requestTimestamps = [''u'' \<mapsto> [0, 100, 100]]\<rparr> 120 ''u'')
   \<and> recentTimestamps
        \<lparr>maxRequests = 2, timeWindowMs = 50,
         requestTimestamps = [''u'' \<mapsto> [0, 100, 100]]\<rparr> 120 ''u'' = [100, 100]
   \<and> requestTimestamps
        (snd (FixedWindowRateLimiter_isAllowed
                \<lparr>maxRequests = 2, timeWindowMs = 50,
                 requestTimestamps = [''u'' \<mapsto> [0, 100, 100]]\<rparr> 120 ''u'')) ''u''
      = Some [0, 100, 100]"
proof -
  let ?l = "\<lparr>maxRequests = 2, timeWindowMs = 50,
             requestTimestamps = [''u'' \<mapsto> [0, 100, 100]]\<rparr>"
  have r: "recentTimestamps ?l 120 ''u'' = [100, 100]"
    by (simp add: recentTimestamps_def timestamps_def)
  have h: "\<not> fst (FixedWindowRateLimiter_isAllowed ?l 120 ''u'')"
    by (simp add: isAllowed_fst r)
  from fixed_window_denied_state_unchanged[OF h] h r show ?thesis by simp
qed

section \<open>Facts about the rounding\<close>

lemma bitlen_powi:
  assumes "0 < n"
  shows "2 powi (bitlen n - 1) \<le> (of_int n :: rat)" "(of_int n :: rat) < 2 powi (bitlen n)"
proof -
  have b: "1 \<le> bitlen n" using assms by (simp add: bitlen_alt_def)
  have "2 ^ nat (bitlen n - 1) \<le> n" "n < 2 ^ nat (bitlen n)"
    using bitlen_bounds[OF assms] by simp_all
  then have "(of_int (2 ^ nat (bitlen n - 1)) :: rat) \<le> of_int n"
    "(of_int n :: rat) < of_int (2 ^ nat (bitlen n))"
    by (simp_all only: of_int_le_iff of_int_less_iff)
  then show "2 powi (bitlen n - 1) \<le> (of_int n :: rat)" "(of_int n :: rat) < 2 powi (bitlen n)"
    using b by (simp_all add: power_int_nonneg_exp)
qed

lemma exponent_bounds:
  assumes "x \<noteq> 0"
  shows "2 powi exponent x \<le> \<bar>x\<bar>" "\<bar>x\<bar> < 2 powi (exponent x + 1)"
proof -
  obtain p q where pq: "quotient_of \<bar>x\<bar> = (p, q)" by (cases "quotient_of \<bar>x\<bar>")
  have q: "0 < q" using quotient_of_denom_pos[OF pq] .
  have x: "\<bar>x\<bar> = of_int p / of_int q" using quotient_of_div[OF pq] .
  have "0 < \<bar>x\<bar>" using assms by simp
  then have p: "0 < p" using q x by (simp add: zero_less_divide_iff)
  let ?e0 = "bitlen p - bitlen q"
  have Q: "(0 :: rat) < of_int q" using q by simp
  have up: "\<bar>x\<bar> < 2 powi (?e0 + 1)"
  proof -
    have "of_int p < (2 :: rat) powi bitlen p" using bitlen_powi(2)[OF p] .
    also have "\<dots> = 2 powi (?e0 + 1) * 2 powi (bitlen q - 1)"
      by (simp flip: power_int_add)
    also have "\<dots> \<le> 2 powi (?e0 + 1) * of_int q"
      using bitlen_powi(1)[OF q] by (intro mult_left_mono) simp_all
    finally show ?thesis using Q by (simp add: x pos_divide_less_eq)
  qed
  have lo: "2 powi (?e0 - 1) \<le> \<bar>x\<bar>"
  proof -
    have "2 powi (?e0 - 1) * (of_int q :: rat) \<le> 2 powi (?e0 - 1) * 2 powi bitlen q"
      using bitlen_powi(2)[OF q] by (intro mult_left_mono) simp_all
    also have "\<dots> = 2 powi (bitlen p - 1)" by (simp flip: power_int_add)
    also have "\<dots> \<le> of_int p" using bitlen_powi(1)[OF p] .
    finally show ?thesis using Q by (simp add: x pos_le_divide_eq)
  qed
  show "2 powi exponent x \<le> \<bar>x\<bar>"
    using lo by (simp add: exponent_def pq Let_def)
  show "\<bar>x\<bar> < 2 powi (exponent x + 1)"
    using up by (auto simp add: exponent_def pq Let_def not_le)
qed

lemma pow2_less_iff: "(2::rat) powi a < 2 powi b \<longleftrightarrow> a < b"
proof
  assume l: "(2::rat) powi a < 2 powi b"
  show "a < b"
  proof (rule ccontr)
    assume "\<not> a < b"
    then have "b \<le> a" by simp
    then have "(2::rat) powi b \<le> 2 powi a" by (intro power_int_increasing) simp_all
    with l show False by simp
  qed
next
  assume "a < b"
  then show "(2::rat) powi a < 2 powi b" by (intro power_int_strict_increasing) simp_all
qed

lemma pow2_le_iff: "(2::rat) powi a \<le> 2 powi b \<longleftrightarrow> a \<le> b"
  using pow2_less_iff[of b a] by (simp add: not_less [symmetric])

lemma exponent_unique:
  assumes "2 powi e \<le> \<bar>x\<bar>" "\<bar>x\<bar> < 2 powi (e + 1)"
  shows "exponent x = e"
proof -
  have "(0::rat) < 2 powi e" by simp
  then have "0 < \<bar>x\<bar>" using assms(1) by (rule less_le_trans)
  then have nz: "x \<noteq> 0" by simp
  have "(2::rat) powi e < 2 powi (exponent x + 1)"
    using assms(1) exponent_bounds(2)[OF nz] by (rule le_less_trans)
  then have 1: "e < exponent x + 1" by (simp add: pow2_less_iff)
  have "(2::rat) powi exponent x < 2 powi (e + 1)"
    using exponent_bounds(1)[OF nz] assms(2) by (rule le_less_trans)
  then have 2: "exponent x < e + 1" by (simp add: pow2_less_iff)
  from 1 2 show ?thesis by simp
qed

text \<open>Rounding to an integer, ties to even, is monotone, odd and exact on integers.\<close>

lemma rte_of_int [simp]: "roundTiesToEven (of_int n) = n"
  by (simp add: roundTiesToEven_def)

lemma rte_bounds: "\<lfloor>q\<rfloor> \<le> roundTiesToEven q" "roundTiesToEven q \<le> \<lfloor>q\<rfloor> + 1"
  by (simp_all add: roundTiesToEven_def Let_def)

lemma rte_mono:
  assumes "q \<le> q'"
  shows "roundTiesToEven q \<le> roundTiesToEven q'"
proof (cases "\<lfloor>q\<rfloor> = \<lfloor>q'\<rfloor>")
  case True
  then show ?thesis using assms by (auto simp add: roundTiesToEven_def Let_def)
next
  case False
  then have "\<lfloor>q\<rfloor> < \<lfloor>q'\<rfloor>" using floor_mono[OF assms] by simp
  then have "\<lfloor>q\<rfloor> + 1 \<le> \<lfloor>q'\<rfloor>" by simp
  then show ?thesis using rte_bounds(2)[of q] rte_bounds(1)[of q'] by linarith
qed

lemma rte_minus: "roundTiesToEven (- q) = - roundTiesToEven q"
proof (cases "q \<in> \<int>")
  case True
  then obtain n where "q = of_int n" by (auto elim: Ints_cases)
  then show ?thesis by (simp flip: of_int_minus)
next
  case False
  then have ne: "q \<noteq> of_int \<lfloor>q\<rfloor>" by (metis Ints_of_int)
  then have f: "\<lfloor>- q\<rfloor> = - \<lfloor>q\<rfloor> - 1"
    by (simp add: floor_minus ceiling_altdef)
  from ne show ?thesis
    by (auto simp add: roundTiesToEven_def Let_def f)
qed

text \<open>Rounding to a double keeps the sign and the order.\<close>

lemma ulp_pos [simp]: "0 < ulp x"
  by (simp add: ulp_def)

lemma ulp_nonneg [simp]: "0 \<le> ulp x"
  by (simp add: ulp_def)

lemma exponent_minus [simp]: "exponent (- x) = exponent x"
  by (simp add: exponent_def)

lemma ulp_minus [simp]: "ulp (- x) = ulp x"
  by (simp add: ulp_def)

lemma binary64_zero [simp]: "binary64 0 = 0"
  by (simp add: binary64_def)

lemma binary64_minus: "binary64 (- x) = - binary64 x"
  by (simp add: binary64_def rte_minus)

lemma binary64_nonneg:
  assumes "0 \<le> x"
  shows "0 \<le> binary64 x"
proof -
  have "0 \<le> x / ulp x" using assms ulp_pos by (rule divide_nonneg_pos)
  then have "roundTiesToEven 0 \<le> roundTiesToEven (x / ulp x)" by (rule rte_mono)
  then have "0 \<le> roundTiesToEven (x / ulp x)" using rte_of_int[of 0] by simp
  then show ?thesis by (simp add: binary64_def)
qed

lemma binary64_nonpos:
  assumes "x \<le> 0"
  shows "binary64 x \<le> 0"
  using binary64_nonneg[of "- x"] assms by (simp add: binary64_minus)

lemma exponent_mono:
  assumes "0 < x" "x \<le> y"
  shows "exponent x \<le> exponent y"
proof -
  have "2 powi exponent x \<le> \<bar>x\<bar>" using assms(1) by (intro exponent_bounds) simp
  also have "\<dots> \<le> \<bar>y\<bar>" using assms by simp
  also have "\<dots> < 2 powi (exponent y + 1)" using assms by (intro exponent_bounds) simp
  finally show ?thesis by (simp add: pow2_less_iff)
qed

lemma ulp_times_53: "2 ^ 53 * ulp x = 2 powi (max (exponent x) (- 1022) + 1)"
proof -
  have "(2::rat) ^ 53 = 2 powi 53" by simp
  then have "2 ^ 53 * ulp x = 2 powi 53 * 2 powi (max (exponent x) (- 1022) - 52)"
    by (simp only: ulp_def)
  also have "\<dots> = 2 powi (53 + (max (exponent x) (- 1022) - 52))"
    by (subst power_int_add) simp_all
  finally show ?thesis by (simp add: add.commute)
qed

lemma ulp_times_52: "2 ^ 52 * ulp x = 2 powi (max (exponent x) (- 1022))"
proof -
  have "(2::rat) ^ 52 = 2 powi 52" by simp
  then have "2 ^ 52 * ulp x = 2 powi 52 * 2 powi (max (exponent x) (- 1022) - 52)"
    by (simp only: ulp_def)
  also have "\<dots> = 2 powi (52 + (max (exponent x) (- 1022) - 52))"
    by (subst power_int_add) simp_all
  finally show ?thesis by simp
qed

lemma scaled_less:
  assumes "0 < x"
  shows "x / ulp x < 2 ^ 53"
proof -
  have "x < 2 powi (exponent x + 1)" using exponent_bounds(2)[of x] assms by simp
  also have "\<dots> \<le> 2 powi (max (exponent x) (- 1022) + 1)" by (simp add: pow2_le_iff)
  also have "\<dots> = 2 ^ 53 * ulp x" by (simp only: ulp_times_53)
  finally show ?thesis by (simp add: pos_divide_less_eq)
qed

lemma scaled_ge:
  assumes "0 < x" "- 1022 \<le> exponent x"
  shows "2 ^ 52 \<le> x / ulp x"
proof -
  have "max (exponent x) (- 1022) = exponent x" using assms(2) by simp
  then have "2 ^ 52 * ulp x = 2 powi (exponent x)" by (simp only: ulp_times_52)
  also have "\<dots> \<le> x" using exponent_bounds(1)[of x] assms(1) by simp
  finally show ?thesis by (simp add: pos_le_divide_eq)
qed

lemma rte_le_53:
  assumes "0 < x"
  shows "roundTiesToEven (x / ulp x) \<le> 2 ^ 53"
proof -
  have "x / ulp x \<le> of_int (2 ^ 53)" using scaled_less[OF assms] by simp
  then have "roundTiesToEven (x / ulp x) \<le> roundTiesToEven (of_int (2 ^ 53))" by (rule rte_mono)
  then show ?thesis by (simp only: rte_of_int)
qed

lemma rte_ge_52:
  assumes "0 < x" "- 1022 \<le> exponent x"
  shows "2 ^ 52 \<le> roundTiesToEven (x / ulp x)"
proof -
  have "of_int (2 ^ 52) \<le> x / ulp x" using scaled_ge[OF assms] by simp
  then have "roundTiesToEven (of_int (2 ^ 52)) \<le> roundTiesToEven (x / ulp x)" by (rule rte_mono)
  then show ?thesis by (simp only: rte_of_int)
qed

lemma binary64_upper:
  assumes "0 < x"
  shows "binary64 x \<le> 2 powi (max (exponent x) (- 1022) + 1)"
proof -
  have "(of_int (roundTiesToEven (x / ulp x)) :: rat) \<le> of_int (2 ^ 53)"
    using rte_le_53[OF assms] by (simp only: of_int_le_iff)
  then have "of_int (roundTiesToEven (x / ulp x)) * ulp x \<le> 2 ^ 53 * ulp x"
    by (intro mult_right_mono) simp_all
  moreover have "binary64 x = of_int (roundTiesToEven (x / ulp x)) * ulp x"
    using assms by (simp add: binary64_def)
  ultimately show ?thesis by (simp only: ulp_times_53)
qed

lemma binary64_lower:
  assumes "0 < x" "- 1022 \<le> exponent x"
  shows "2 powi exponent x \<le> binary64 x"
proof -
  have "(of_int (2 ^ 52) :: rat) \<le> of_int (roundTiesToEven (x / ulp x))"
    using rte_ge_52[OF assms] by (simp only: of_int_le_iff)
  then have "2 ^ 52 * ulp x \<le> of_int (roundTiesToEven (x / ulp x)) * ulp x"
    by (intro mult_right_mono) simp_all
  moreover have "binary64 x = of_int (roundTiesToEven (x / ulp x)) * ulp x"
    using assms by (simp add: binary64_def)
  moreover have "max (exponent x) (- 1022) = exponent x" using assms(2) by simp
  ultimately show ?thesis by (simp only: ulp_times_52)
qed

lemma binary64_mono_pos:
  assumes "0 < x" "x \<le> y"
  shows "binary64 x \<le> binary64 y"
proof -
  let ?Ex = "max (exponent x) (- 1022)" and ?Ey = "max (exponent y) (- 1022)"
  have y: "0 < y" using assms by simp
  have "exponent x \<le> exponent y" using assms by (rule exponent_mono)
  then have le: "?Ex \<le> ?Ey" by (auto simp add: max_def)
  show ?thesis
  proof (cases "?Ex = ?Ey")
    case True
    then have u: "ulp y = ulp x" by (simp add: ulp_def)
    have "x / ulp x \<le> y / ulp x" using assms(2) by (simp add: divide_right_mono)
    then have "roundTiesToEven (x / ulp x) \<le> roundTiesToEven (y / ulp x)" by (rule rte_mono)
    then have "(of_int (roundTiesToEven (x / ulp x)) :: rat) * ulp x
                 \<le> of_int (roundTiesToEven (y / ulp x)) * ulp x"
      by (intro mult_right_mono) simp_all
    then show ?thesis using assms(1) y by (simp add: binary64_def u)
  next
    case False
    with le have lt: "?Ex < ?Ey" by (rule le_neq_trans)
    then have ey: "?Ey = exponent y" "- 1022 \<le> exponent y"
      by (auto simp add: max_def split: if_splits)
    have "binary64 x \<le> 2 powi (?Ex + 1)" using assms(1) by (rule binary64_upper)
    also have "\<dots> \<le> 2 powi exponent y"
    proof -
      have "?Ex + 1 \<le> exponent y" using lt ey(1) by linarith
      then show ?thesis by (simp only: pow2_le_iff)
    qed
    also have "\<dots> \<le> binary64 y" using y ey(2) by (rule binary64_lower)
    finally show ?thesis .
  qed
qed

lemma binary64_mono:
  assumes "x \<le> y"
  shows "binary64 x \<le> binary64 y"
proof -
  consider "0 < x" | "y < 0" | "x \<le> 0" "0 \<le> y" by linarith
  then show ?thesis
  proof cases
    case 1
    then show ?thesis using assms by (rule binary64_mono_pos)
  next
    case 2
    then have "binary64 (- y) \<le> binary64 (- x)" using assms by (intro binary64_mono_pos) simp_all
    then show ?thesis by (simp add: binary64_minus)
  next
    case 3
    then show ?thesis using binary64_nonpos[of x] binary64_nonneg[of y] by simp
  qed
qed

lemma pow2_scale_53: "2 ^ 53 * 2 powi (E - 52) = (2::rat) powi (E + 1)"
proof -
  have "(2::rat) ^ 53 = 2 powi 53" by simp
  then have "2 ^ 53 * 2 powi (E - 52) = (2::rat) powi 53 * 2 powi (E - 52)" by (simp only:)
  also have "\<dots> = 2 powi (53 + (E - 52))" by (subst power_int_add) simp_all
  finally show ?thesis by (simp add: add.commute)
qed

lemma pow2_scale_52: "2 ^ 52 * 2 powi (E - 52) = (2::rat) powi E"
proof -
  have "(2::rat) ^ 52 = 2 powi 52" by simp
  then have "2 ^ 52 * 2 powi (E - 52) = (2::rat) powi 52 * 2 powi (E - 52)" by (simp only:)
  also have "\<dots> = 2 powi (52 + (E - 52))" by (subst power_int_add) simp_all
  finally show ?thesis by simp
qed

text \<open>A significand of at most 53 bits at an exponent in range is a fixed point.\<close>

lemma binary64_fixed:
  assumes "- 1022 \<le> E" "x = of_int m * 2 powi (E - 52)" "\<bar>m\<bar> < 2 ^ 53"
    and "2 ^ 52 \<le> \<bar>m\<bar> \<or> E = - 1022"
  shows "binary64 x = x"
proof (cases "m = 0")
  case True
  then show ?thesis using assms(2) by simp
next
  case False
  then have nz: "x \<noteq> 0" using assms(2) by simp
  have absx: "\<bar>x\<bar> = of_int \<bar>m\<bar> * 2 powi (E - 52)"
    by (simp add: assms(2) abs_mult)
  have up: "\<bar>x\<bar> < 2 powi (E + 1)"
  proof -
    have "(of_int \<bar>m\<bar> :: rat) < of_int (2 ^ 53)" using assms(3) by (simp only: of_int_less_iff)
    then have "of_int \<bar>m\<bar> * 2 powi (E - 52) < of_int (2 ^ 53) * (2::rat) powi (E - 52)"
      by (intro mult_strict_right_mono) simp_all
    also have "of_int (2 ^ 53) * (2::rat) powi (E - 52) = 2 ^ 53 * 2 powi (E - 52)" by simp
    also have "\<dots> = 2 powi (E + 1)" by (rule pow2_scale_53)
    finally show ?thesis by (simp only: absx)
  qed
  have E': "max (exponent x) (- 1022) = E"
  proof (cases "2 ^ 52 \<le> \<bar>m\<bar>")
    case True
    then have "(of_int (2 ^ 52) :: rat) \<le> of_int \<bar>m\<bar>" by (simp only: of_int_le_iff)
    then have "of_int (2 ^ 52) * (2::rat) powi (E - 52) \<le> of_int \<bar>m\<bar> * 2 powi (E - 52)"
      by (intro mult_right_mono) simp_all
    moreover have "of_int (2 ^ 52) * (2::rat) powi (E - 52) = 2 ^ 52 * 2 powi (E - 52)" by simp
    ultimately have "2 powi E \<le> \<bar>x\<bar>" by (simp only: absx pow2_scale_52)
    then have "exponent x = E" using up by (rule exponent_unique)
    then show ?thesis using assms(1) by simp
  next
    case False
    then have E: "E = - 1022" using assms(4) by simp
    have "2 powi exponent x \<le> \<bar>x\<bar>" using exponent_bounds(1)[OF nz] .
    also have "\<dots> < 2 powi (E + 1)" by (rule up)
    finally have "exponent x < E + 1" by (simp only: pow2_less_iff)
    then show ?thesis using E by simp
  qed
  then have u: "ulp x = 2 powi (E - 52)" by (simp add: ulp_def)
  have "x / ulp x = x / 2 powi (E - 52)" by (simp only: u)
  also have "\<dots> = of_int m" by (simp add: assms(2))
  finally have "binary64 x = of_int m * ulp x" using nz by (simp add: binary64_def)
  also have "\<dots> = of_int m * 2 powi (E - 52)" by (simp only: u)
  also have "\<dots> = x" by (simp only: assms(2))
  finally show ?thesis .
qed

lemma binary64_idem_pos:
  assumes "0 < x"
  shows "binary64 (binary64 x) = binary64 x"
proof -
  let ?E = "max (exponent x) (- 1022)" and ?m = "roundTiesToEven (x / ulp x)"
  have b: "binary64 x = of_int ?m * 2 powi (?E - 52)"
    using assms by (simp add: binary64_def ulp_def)
  have "0 \<le> x / ulp x" using assms by (intro divide_nonneg_pos) simp_all
  then have "roundTiesToEven (of_int 0) \<le> ?m" by (intro rte_mono) simp
  then have m0: "0 \<le> ?m" by (simp only: rte_of_int)
  have m53: "?m \<le> 2 ^ 53" using assms by (rule rte_le_53)
  show ?thesis
  proof (cases "?m = 2 ^ 53")
    case True
    have "binary64 x = of_int (2 ^ 53) * 2 powi (?E - 52)" by (simp only: b True)
    also have "\<dots> = 2 ^ 53 * 2 powi (?E - 52)" by simp
    also have "\<dots> = 2 powi (?E + 1)" by (rule pow2_scale_53)
    also have "\<dots> = 2 ^ 52 * 2 powi (?E + 1 - 52)" by (simp only: pow2_scale_52)
    also have "\<dots> = of_int (2 ^ 52) * 2 powi (?E + 1 - 52)" by simp
    finally have "binary64 x = of_int (2 ^ 52) * 2 powi (?E + 1 - 52)" .
    then show ?thesis by (rule binary64_fixed[rotated]) simp_all
  next
    case False
    then have lt: "\<bar>?m\<bar> < 2 ^ 53" using m0 m53 by simp
    have "2 ^ 52 \<le> \<bar>?m\<bar> \<or> ?E = - 1022"
    proof (cases "- 1022 \<le> exponent x")
      case True
      with assms have "2 ^ 52 \<le> ?m" by (rule rte_ge_52)
      then show ?thesis by simp
    next
      case False
      then show ?thesis by simp
    qed
    with b lt show ?thesis by (intro binary64_fixed[where E = ?E and m = ?m]) simp_all
  qed
qed

lemma binary64_idem: "binary64 (binary64 x) = binary64 x"
proof -
  consider "0 < x" | "x = 0" | "x < 0" by linarith
  then show ?thesis
  proof cases
    case 1
    then show ?thesis by (rule binary64_idem_pos)
  next
    case 2
    then show ?thesis by simp
  next
    case 3
    then have "binary64 (binary64 (- x)) = binary64 (- x)" by (intro binary64_idem_pos) simp
    then show ?thesis by (simp add: binary64_minus)
  qed
qed

lemma binary64_of_int:
  assumes "\<bar>n\<bar> < 2 ^ 53"
  shows "binary64 (of_int n) = of_int n"
proof (cases "n = 0")
  case True
  then show ?thesis by simp
next
  case False
  then have pos: "0 < \<bar>n\<bar>" by simp
  define k where "k = nat (bitlen \<bar>n\<bar>)"
  have bl: "1 \<le> bitlen \<bar>n\<bar>" using pos by (simp add: bitlen_alt_def)
  have lo: "2 ^ (k - 1) \<le> \<bar>n\<bar>" and hi: "\<bar>n\<bar> < 2 ^ k"
    using bitlen_bounds[OF pos] bl by (simp_all add: k_def nat_diff_distrib)
  have k1: "1 \<le> k" using bl by (simp add: k_def)
  have "(2::int) ^ (k - 1) < 2 ^ 53" using lo assms by (rule le_less_trans)
  then have "k - 1 < 53" by (simp only: power_strict_increasing_iff one_less_numeral_iff
        semiring_norm)
  then have k53: "k \<le> 53" by simp
  let ?m = "n * 2 ^ (53 - k)"
  have split53: "(2::int) ^ 53 = 2 ^ k * 2 ^ (53 - k)"
    using k53 by (simp flip: power_add)
  have split52: "(2::int) ^ 52 = 2 ^ (k - 1) * 2 ^ (53 - k)"
  proof -
    have "k - 1 + (53 - k) = 52" using k1 k53 by simp
    then show ?thesis by (simp only: flip: power_add)
  qed
  have m_hi: "\<bar>?m\<bar> < 2 ^ 53"
  proof -
    have "\<bar>?m\<bar> = \<bar>n\<bar> * 2 ^ (53 - k)" by (simp add: abs_mult)
    also have "\<dots> < 2 ^ k * 2 ^ (53 - k)" using hi by (intro mult_strict_right_mono) simp_all
    finally show ?thesis by (simp only: split53)
  qed
  have m_lo: "2 ^ 52 \<le> \<bar>?m\<bar>"
  proof -
    have "2 ^ (k - 1) * 2 ^ (53 - k) \<le> \<bar>n\<bar> * (2::int) ^ (53 - k)"
      using lo by (intro mult_right_mono) simp_all
    also have "\<dots> = \<bar>?m\<bar>" by (simp add: abs_mult)
    finally show ?thesis by (simp only: split52)
  qed
  have eq: "(of_int n :: rat) = of_int ?m * 2 powi (int k - 1 - 52)"
  proof -
    have "int k - 1 - 52 = - int (53 - k)" using k53 by simp
    then have "(2::rat) powi (int k - 1 - 52) = inverse (2 ^ (53 - k))"
      by (simp only: power_int_minus power_int_of_nat)
    then show ?thesis by simp
  qed
  have "- 1022 \<le> int k - 1" by simp
  then show ?thesis using eq m_hi
    by (rule binary64_fixed) (use m_lo in simp)
qed

text \<open>Integers of magnitude below \<open>2 ^ 53\<close> are doubles.\<close>

lemma binary64_one [simp]: "binary64 1 = 1"
  using binary64_of_int[of 1] by simp

lemma binary64_neg_one [simp]: "binary64 (- 1) = - 1"
  using binary64_of_int[of "- 1"] by simp

lemma binary64_numeral:
  "(numeral k :: int) < 2 ^ 53 \<Longrightarrow> binary64 (numeral k) = numeral k"
  using binary64_of_int[of "numeral k"] by simp


section \<open>Facts about the token-bucket limiter\<close>

lemma refill_fields:
  "capacity (refill this now) = capacity this"
  "rate (refill this now) = rate this"
  "lastCheckedAt (refill this now) = now"
  "tokens (refill this now) =
     min (capacity this)
         (binary64 (tokens this
            + binary64 (binary64 (binary64 (of_int (now - lastCheckedAt this)) / 1000)
                          * rate this)))"
  by (simp_all add: refill_def Let_def)


lemma refill_nonneg:
  assumes "0 \<le> tokens this" "0 \<le> capacity this" "0 \<le> rate this" "lastCheckedAt this \<le> now"
  shows "0 \<le> tokens (refill this now)"
proof -
  let ?elapsed = "binary64 (of_int (now - lastCheckedAt this))"
  let ?timePassed = "binary64 (?elapsed / 1000)"
  have "0 \<le> ?elapsed" using assms(4) by (intro binary64_nonneg) simp
  then have "0 \<le> ?timePassed" by (intro binary64_nonneg) simp
  then have "0 \<le> ?timePassed * rate this" using assms(3) by (rule mult_nonneg_nonneg)
  then have "0 \<le> binary64 (?timePassed * rate this)" by (rule binary64_nonneg)
  then have "0 \<le> tokens this + binary64 (?timePassed * rate this)" using assms(1) by simp
  then have "0 \<le> binary64 (tokens this + binary64 (?timePassed * rate this))"
    by (rule binary64_nonneg)
  then show ?thesis using assms(2) by (simp add: refill_fields)
qed

lemma refill_is_double:
  assumes "is_double (capacity this)"
  shows "is_double (tokens (refill this now))"
  using assms by (simp add: refill_fields is_double_def min_def binary64_idem)





text \<open>
  Claim C4 (inclusive boundary). When the tokens after the refill equal the request,
  \<open>isAllowed\<close> returns true and leaves exactly 0 tokens.
\<close>

theorem token_bucket_exact_request_drains:
  assumes "tokens (refill this now) = tokensRequested"
  shows "fst (TokenBucketRateLimiter_isAllowed this now tokensRequested)
         \<and> tokens (snd (TokenBucketRateLimiter_isAllowed this now tokensRequested)) = 0"
  using assms by (simp add: TokenBucketRateLimiter_isAllowed_def Let_def)

theorem token_bucket_exact_request_drains_witness:
  "tokens (refill (TokenBucketRateLimiter_constructor 10 1 0) 250) = 10
   \<and> fst (TokenBucketRateLimiter_isAllowed (TokenBucketRateLimiter_constructor 10 1 0) 250 10)
   \<and> tokens (snd (TokenBucketRateLimiter_isAllowed (TokenBucketRateLimiter_constructor 10 1 0) 250 10)) = 0"
proof -
  have h: "tokens (refill (TokenBucketRateLimiter_constructor 10 1 0) 250) = 10"
    by code_simp
  from token_bucket_exact_request_drains[OF h] h show ?thesis by simp
qed

text \<open>
  Claim C6 (what a call writes). Every call of \<open>isAllowed\<close>, admitted or refused, sets
  \<open>lastCheckedAt\<close> to the clock reading and leaves capacity and rate alone. After a refused
  call the tokens are the refilled, clamped amount
  \<open>min capacity (tokens + timePassed * rate)\<close>, computed in doubles, and nothing else.
  The instance below is an emptied bucket of capacity 10 and rate 1 asked for one token
  100 ms later: the call is refused and the bucket holds the double nearest to one tenth.
\<close>

theorem token_bucket_denied_frame:
  "lastCheckedAt (snd (TokenBucketRateLimiter_isAllowed this now tokensRequested)) = now
   \<and> capacity (snd (TokenBucketRateLimiter_isAllowed this now tokensRequested)) = capacity this
   \<and> rate (snd (TokenBucketRateLimiter_isAllowed this now tokensRequested)) = rate this
   \<and> (\<not> fst (TokenBucketRateLimiter_isAllowed this now tokensRequested) \<longrightarrow>
        tokens (snd (TokenBucketRateLimiter_isAllowed this now tokensRequested)) =
          min (capacity this)
              (binary64 (tokens this
                 + binary64 (binary64 (binary64 (of_int (now - lastCheckedAt this)) / 1000)
                               * rate this))))"
  by (simp add: TokenBucketRateLimiter_isAllowed_def Let_def refill_fields)

theorem token_bucket_denied_frame_witness:
  "\<not> fst (TokenBucketRateLimiter_isAllowed
             \<lparr>capacity = 10, rate = 1, lastCheckedAt = 0, tokens = 0\<rparr> 100 1)
   \<and> lastCheckedAt
        (snd (TokenBucketRateLimiter_isAllowed
                \<lparr>capacity = 10, rate = 1, lastCheckedAt = 0, tokens = 0\<rparr> 100 1)) = 100
   \<and> tokens
        (snd (TokenBucketRateLimiter_isAllowed
                \<lparr>capacity = 10, rate = 1, lastCheckedAt = 0, tokens = 0\<rparr> 100 1))
       = 3602879701896397 / 36028797018963968"
proof -
  let ?b = "\<lparr>capacity = 10, rate = 1, lastCheckedAt = 0, tokens = 0\<rparr>"
  have h: "\<not> fst (TokenBucketRateLimiter_isAllowed ?b 100 1)"
    by code_simp
  have v: "min (capacity ?b)
             (binary64 (tokens ?b
                + binary64 (binary64 (binary64 (of_int (100 - lastCheckedAt ?b)) / 1000)
                              * rate ?b)))
           = 3602879701896397 / 36028797018963968"
    by code_simp
  from token_bucket_denied_frame[of ?b 100 1] h v show ?thesis by simp
qed

text \<open>
  Claim C8 (burst, then refill). A bucket constructed with capacity 10 and rate 1 at time
  \<open>t0\<close> answers true to the first ten calls \<open>isAllowed 1\<close> made at \<open>t0\<close> and false to the
  eleventh; 1000 ms later one token has been refilled and \<open>isAllowed 1\<close> returns true,
  which empties the bucket again. The claim's \<open>t = 0\<close> is the instance \<open>t0 = 0\<close>.
\<close>

theorem token_bucket_burst_then_refill:
  "TokenBucketRateLimiter_calls (TokenBucketRateLimiter_constructor 10 1 t0)
     (replicate 11 (t0, 1) @ [(t0 + 1000, 1)])
   = ([True, True, True, True, True, True, True, True, True, True, False, True],
      \<lparr>capacity = 10, rate = 1, lastCheckedAt = t0 + 1000, tokens = 0\<rparr>)"
  by (simp add: eval_nat_numeral TokenBucketRateLimiter_constructor_def
      TokenBucketRateLimiter_isAllowed_def refill_def binary64_numeral)

text \<open>
  Claim C10 (no validation of the request), as the code has it. On a bucket with tokens,
  capacity and rate not negative, at a clock reading not before \<open>lastCheckedAt\<close>, a
  request that is zero or negative is admitted, and the tokens become the double nearest
  to the refilled amount minus the request. When the capacity is a double that is never
  less than the refilled amount. It can be more than the capacity: a bucket of capacity 10
  asked for \<open>- 5\<close> as soon as it is constructed holds 15 tokens.
\<close>

theorem token_bucket_nonpositive_request:
  assumes "tokensRequested \<le> 0" "0 \<le> tokens this"
    and "0 \<le> capacity this" "0 \<le> rate this" "lastCheckedAt this \<le> now"
  shows "fst (TokenBucketRateLimiter_isAllowed this now tokensRequested)
         \<and> tokens (snd (TokenBucketRateLimiter_isAllowed this now tokensRequested))
             = binary64 (tokens (refill this now) - tokensRequested)
         \<and> (is_double (capacity this) \<longrightarrow>
              tokens (refill this now)
                \<le> tokens (snd (TokenBucketRateLimiter_isAllowed this now tokensRequested)))
         \<and> capacity (snd (TokenBucketRateLimiter_isAllowed
                             (TokenBucketRateLimiter_constructor 10 1 now) now (- 5)))
             < tokens (snd (TokenBucketRateLimiter_isAllowed
                              (TokenBucketRateLimiter_constructor 10 1 now) now (- 5)))"
proof -
  have "0 \<le> tokens (refill this now)" using assms(2-5) by (rule refill_nonneg)
  then have le: "tokensRequested \<le> tokens (refill this now)" using assms(1) by simp
  have grow: "tokens (refill this now) \<le> binary64 (tokens (refill this now) - tokensRequested)"
    if "is_double (capacity this)"
  proof -
    have "tokens (refill this now) \<le> tokens (refill this now) - tokensRequested"
      using assms(1) by simp
    then have "binary64 (tokens (refill this now))
                 \<le> binary64 (tokens (refill this now) - tokensRequested)"
      by (rule binary64_mono)
    moreover have "binary64 (tokens (refill this now)) = tokens (refill this now)"
      using refill_is_double[OF that] by (simp add: is_double_def)
    ultimately show ?thesis by simp
  qed
  have inst: "capacity (snd (TokenBucketRateLimiter_isAllowed
                               (TokenBucketRateLimiter_constructor 10 1 now) now (- 5)))
                < tokens (snd (TokenBucketRateLimiter_isAllowed
                                 (TokenBucketRateLimiter_constructor 10 1 now) now (- 5)))"
    by (simp add: TokenBucketRateLimiter_isAllowed_def TokenBucketRateLimiter_constructor_def
        refill_def binary64_numeral)
  show ?thesis using le grow inst
    by (simp add: TokenBucketRateLimiter_isAllowed_def Let_def)
qed

theorem token_bucket_nonpositive_request_witness:
  "(- 5 :: rat) \<le> 0
   \<and> 0 \<le> tokens (TokenBucketRateLimiter_constructor 10 1 0)
   \<and> is_double (capacity (TokenBucketRateLimiter_constructor 10 1 0))
   \<and> fst (TokenBucketRateLimiter_isAllowed (TokenBucketRateLimiter_constructor 10 1 0) 0 (- 5))
   \<and> tokens (snd (TokenBucketRateLimiter_isAllowed (TokenBucketRateLimiter_constructor 10 1 0) 0 (- 5)))
       = 15
   \<and> tokens (refill (TokenBucketRateLimiter_constructor 10 1 0) 0) = 10
   \<and> capacity (snd (TokenBucketRateLimiter_isAllowed (TokenBucketRateLimiter_constructor 10 1 0) 0 (- 5)))
       = 10"
proof -
  let ?b = "TokenBucketRateLimiter_constructor 10 1 0"
  have h: "(- 5 :: rat) \<le> 0" "0 \<le> tokens ?b" "0 \<le> capacity ?b" "0 \<le> rate ?b"
    "lastCheckedAt ?b \<le> 0"
    by (simp_all add: TokenBucketRateLimiter_constructor_def)
  have d: "is_double (capacity ?b)"
    by (simp add: TokenBucketRateLimiter_constructor_def is_double_def binary64_numeral)
  have r: "tokens (refill ?b 0) = 10"
    by (simp add: TokenBucketRateLimiter_constructor_def refill_def binary64_numeral)
  have c: "capacity (snd (TokenBucketRateLimiter_isAllowed ?b 0 (- 5))) = 10"
    by (simp add: TokenBucketRateLimiter_constructor_def TokenBucketRateLimiter_isAllowed_def
        Let_def refill_fields(1))
  from token_bucket_nonpositive_request[OF h] h d r c show ?thesis
    by (simp add: binary64_numeral)
qed

text \<open>
  Claim C10 as worded fails in two places. First, tokens that are not negative before the
  call do not make the call succeed: the bucket of capacity 10 and rate 1 emptied at clock
  reading 1000 refuses \<open>isAllowed 0\<close> at clock reading 0, because the refill leaves
  \<open>- 1\<close> tokens. Second, a negative request need not increase the tokens: with capacity
  \<open>2 ^ 53\<close> the difference \<open>2 ^ 53 + 1\<close> is not a double and rounds back to \<open>2 ^ 53\<close>, so
  \<open>isAllowed (- 1)\<close> on the full bucket is admitted and leaves the tokens where the refill
  put them.
\<close>

theorem token_bucket_nonpositive_request_counterexample:
  "(0 :: rat) \<le> 0
   \<and> 0 \<le> tokens \<lparr>capacity = 10, rate = 1, lastCheckedAt = 1000, tokens = 0\<rparr>
   \<and> \<not> fst (TokenBucketRateLimiter_isAllowed
               \<lparr>capacity = 10, rate = 1, lastCheckedAt = 1000, tokens = 0\<rparr> 0 0)
   \<and> (- 1 :: rat) < 0
   \<and> fst (TokenBucketRateLimiter_isAllowed
             (TokenBucketRateLimiter_constructor (2 ^ 53) 1 0) 0 (- 1))
   \<and> tokens (refill (TokenBucketRateLimiter_constructor (2 ^ 53) 1 0) 0) = 2 ^ 53
   \<and> tokens (snd (TokenBucketRateLimiter_isAllowed
                     (TokenBucketRateLimiter_constructor (2 ^ 53) 1 0) 0 (- 1))) = 2 ^ 53"
  by code_simp

end
